theory Spec2Isabelle
  imports Main
begin

section \<open>Python strings\<close>

text \<open>
  A Python \<open>str\<close> is a sequence of Unicode code points. A code point is modelled as a
  natural number and a string as a list of them, so that \<open>str.splitlines\<close> and
  \<open>str.strip\<close> can be given with the boundaries and the whitespace that CPython uses.
  \<open>ustr\<close> turns an ASCII literal into such a string.
\<close>

type_synonym codepoint = nat
type_synonym str = "codepoint list"

definition ustr :: "string \<Rightarrow> str" where
  "ustr = map of_char"

text \<open>
  The line boundaries of \<open>str.splitlines\<close>: LF, VT, FF, CR, FS, GS, RS, NEL, LINE
  SEPARATOR and PARAGRAPH SEPARATOR (CR LF counts as one boundary).
\<close>

definition is_linebreak :: "codepoint \<Rightarrow> bool" where
  "is_linebreak c \<longleftrightarrow> c \<in> {10, 11, 12, 13, 28, 29, 30, 133, 8232, 8233}"

text \<open>The characters \<open>str.strip()\<close> removes: those for which \<open>str.isspace\<close> holds.\<close>

definition is_space :: "codepoint \<Rightarrow> bool" where
  "is_space c \<longleftrightarrow>
     (9 \<le> c \<and> c \<le> 13) \<or> (28 \<le> c \<and> c \<le> 32) \<or> c = 133 \<or> c = 160 \<or> c = 5760 \<or>
     (8192 \<le> c \<and> c \<le> 8202) \<or> c = 8232 \<or> c = 8233 \<or> c = 8239 \<or> c = 8287 \<or> c = 12288"

definition all_space :: "str \<Rightarrow> bool" where
  "all_space s = list_all is_space s"

definition strip :: "str \<Rightarrow> str" where
  "strip s = rev (dropWhile is_space (rev (dropWhile is_space s)))"

definition startswith :: "str \<Rightarrow> str \<Rightarrow> bool" where
  "startswith s p \<longleftrightarrow> take (length p) s = p"

definition endswith :: "str \<Rightarrow> str \<Rightarrow> bool" where
  "endswith s p \<longleftrightarrow> take (length p) (rev s) = rev p"

text \<open>\<open>sep.join(xs)\<close>.\<close>

fun join :: "str \<Rightarrow> str list \<Rightarrow> str" where
  "join sep [] = []"
| "join sep [x] = x"
| "join sep (x # y # ys) = x @ sep @ join sep (y # ys)"

definition nl :: str where
  "nl = [10]"

text \<open>
  \<open>drop_eol\<close> consumes the line boundary a string starts with: one character, or two
  for CR LF.
\<close>

definition drop_eol :: "str \<Rightarrow> str" where
  "drop_eol s =
     (case s of
        [] \<Rightarrow> []
      | c # cs \<Rightarrow>
          (if c = 13 then (case cs of [] \<Rightarrow> [] | d # ds \<Rightarrow> if d = 10 then ds else cs)
           else cs))"

text \<open>
  \<open>str.splitlines()\<close> without \<open>keepends\<close>: the text up to each line boundary, the
  boundaries dropped; the empty string has no line, and a boundary at the very end
  opens no further line.
\<close>

function splitlines :: "str \<Rightarrow> str list" where
  "splitlines s =
     (if s = [] then []
      else takeWhile (\<lambda>c. \<not> is_linebreak c) s
             # splitlines (drop_eol (dropWhile (\<lambda>c. \<not> is_linebreak c) s)))"
  by pat_completeness auto
termination
proof (relation "measure length")
  show "wf (measure length)" by simp
next
  fix s :: str
  assume ne: "s \<noteq> []"
  let ?r = "dropWhile (\<lambda>c. \<not> is_linebreak c) s"
  have le: "length ?r \<le> length s"
    by (rule length_dropWhile_le)
  have "length (drop_eol ?r) < length s"
  proof (cases ?r)
    case Nil
    have "drop_eol ?r = []"
      by (simp only: Nil drop_eol_def list.case)
    with ne show ?thesis by simp
  next
    case (Cons c cs)
    then have "length (drop_eol ?r) < length ?r"
      by (auto simp: drop_eol_def split: list.splits)
    with le show ?thesis by simp
  qed
  then show "(drop_eol ?r, s) \<in> measure length" by simp
qed

declare splitlines.simps [simp del]

section \<open>Chunker and tagger (rag\_utils.py)\<close>

definition heading_prefix :: str where
  "heading_prefix = ustr ''## ''"

text \<open>
  The loop of \<open>split_to_chunks\<close> over the lines, with its two variables \<open>chunks\<close> and
  \<open>buf\<close>: a heading line flushes a non-empty buffer, then every line is appended to
  the buffer.
\<close>

fun split_loop :: "str list \<Rightarrow> str list \<Rightarrow> str list \<Rightarrow> str list \<times> str list" where
  "split_loop [] chunks buf = (chunks, buf)"
| "split_loop (line # lines) chunks buf =
     (if startswith line heading_prefix \<and> buf \<noteq> []
      then split_loop lines (chunks @ [strip (join nl buf)]) [line]
      else split_loop lines chunks (buf @ [line]))"

definition split_to_chunks :: "str \<Rightarrow> str list" where
  "split_to_chunks content =
     (let (chunks, buf) = split_loop (splitlines content) [] [];
          chunks = (if buf \<noteq> [] then chunks @ [strip (join nl buf)] else chunks)
      in filter (\<lambda>ch. ch \<noteq> []) chunks)"

definition parse_all_headers :: "str \<Rightarrow> str list" where
  "parse_all_headers content =
     map (\<lambda>line. strip (drop 3 line))
       (filter (\<lambda>line. startswith line heading_prefix) (splitlines content))"

text \<open>
  Values as \<open>yaml.safe_load\<close> builds them and as the chunk metadata holds them: the
  tags of a document are a list of such values (strings, when they come from the
  headings).
\<close>

datatype pyval =
    PNone
  | PBool bool
  | PInt int
  | PStr str
  | PList "pyval list"
  | PDict "(pyval \<times> pyval) list"

definition misc_tag :: pyval where
  "misc_tag = PStr (ustr ''Misc'')"

text \<open>
  \<open>tag_chunks\<close>: one result per chunk, \<open>tags[0] if tags else 'Misc'\<close>. The expression
  never indexes an empty list, so no IndexError arises.
\<close>

fun tag_chunks :: "'c list \<Rightarrow> pyval list \<Rightarrow> pyval list" where
  "tag_chunks [] tags = []"
| "tag_chunks (ch # chunks) tags =
     (case tags of [] \<Rightarrow> misc_tag | t # _ \<Rightarrow> t) # tag_chunks chunks tags"


section \<open>Notions the properties of the chunker are stated with\<close>

definition is_heading :: "str \<Rightarrow> bool" where
  "is_heading line = startswith line heading_prefix"

text \<open>The characters of a string that are not whitespace, in order.\<close>

definition nonspace :: "str \<Rightarrow> str" where
  "nonspace s = filter (\<lambda>c. \<not> is_space c) s"

text \<open>
  \<open>rejoins t cs\<close>: the text \<open>t\<close> is the chunks \<open>cs\<close> in order, with nothing but
  whitespace before the first, between two neighbours and after the last. The check
  is greedy, which is exact for chunks that are non-empty and start with a
  non-whitespace character.
\<close>

fun rejoins :: "str \<Rightarrow> str list \<Rightarrow> bool" where
  "rejoins t [] = all_space t"
| "rejoins t (c # cs) =
     (let u = dropWhile is_space t in startswith u c \<and> rejoins (drop (length c) u) cs)"

text \<open>A text whose only line boundary is LF.\<close>

definition nl_only :: "str \<Rightarrow> bool" where
  "nl_only s = list_all (\<lambda>c. is_linebreak c \<longrightarrow> c = 10) s"

text \<open>What a flush appends for a buffer of lines: \<open>'\n'.join(buf).strip()\<close>.\<close>

definition section_text :: "str list \<Rightarrow> str" where
  "section_text g = strip (join nl g)"

definition flush :: "str list \<Rightarrow> str list \<Rightarrow> str list" where
  "flush chunks buf = (if buf \<noteq> [] then chunks @ [section_text buf] else chunks)"

text \<open>
  A chunk that opens with a level-2 heading: it starts with \<open>## \<close>, or it is the bare
  marker \<open>##\<close> that \<open>strip\<close> leaves of a heading with an empty title and nothing but
  whitespace after it.
\<close>

definition heading_chunk :: "str \<Rightarrow> bool" where
  "heading_chunk ch \<longleftrightarrow> ch = ustr ''##'' \<or> startswith ch heading_prefix"

text \<open>The document of the specification's scenario.\<close>

definition intro_setup_usage :: str where
  "intro_setup_usage = ustr ''Intro\<newline>## Setup\<newline>Step 1\<newline>## Usage\<newline>Step 2''"

section \<open>Tagger\<close>

lemma tag_chunks_replicate:
  "tag_chunks chunks tags =
     replicate (length chunks) (case tags of [] \<Rightarrow> misc_tag | t # _ \<Rightarrow> t)"
  by (induction chunks) simp_all

text \<open>
  Claim C6. For every list of chunks and every tag list, the empty one included,
  \<open>tag_chunks\<close> returns as many tags as there are chunks; each of them is the first
  element of the tag list, or the sentinel "Misc" when the tag list is empty; and
  replacing the chunk texts by any others (\<open>map f\<close>) leaves the result unchanged.
\<close>

theorem tag_chunks_policy:
  "length (tag_chunks chunks tags) = length chunks \<and>
   tag_chunks chunks [] = replicate (length chunks) misc_tag \<and>
   tag_chunks chunks (t # ts) = replicate (length chunks) t \<and>
   tag_chunks (map f chunks) tags = tag_chunks chunks tags"
  by (simp add: tag_chunks_replicate)

theorem tag_chunks_policy_witness:
  "tag_chunks [ustr ''Intro'', ustr ''## Setup''] [] = [misc_tag, misc_tag] \<and>
   tag_chunks [ustr ''Intro'', ustr ''## Setup''] [PStr (ustr ''Setup''), PStr (ustr ''Usage'')]
     = [PStr (ustr ''Setup''), PStr (ustr ''Setup'')]"
  using tag_chunks_policy [of "[ustr ''Intro'', ustr ''## Setup'']" "[]"
      "PStr (ustr ''Setup'')" "[PStr (ustr ''Usage'')]" id]
  by (simp add: numeral_2_eq_2)

lemma linebreak_is_space: "is_linebreak c \<Longrightarrow> is_space c"
  by (auto simp: is_linebreak_def is_space_def)

lemma splitlines_Nil [simp]: "splitlines [] = []"
  by (simp add: splitlines.simps)

lemma splitlines_Cons:
  "s \<noteq> [] \<Longrightarrow> splitlines s = takeWhile (\<lambda>c. \<not> is_linebreak c) s
             # splitlines (drop_eol (dropWhile (\<lambda>c. \<not> is_linebreak c) s))"
  by (subst splitlines.simps) simp

lemma splitlines_eq_Nil [simp]: "splitlines s = [] \<longleftrightarrow> s = []"
  by (cases "s = []") (simp_all add: splitlines_Cons)

section \<open>Strings: strip, join, splitlines\<close>

subsection \<open>strip\<close>

lemma all_space_Nil [simp]: "all_space []"
  by (simp add: all_space_def)

lemma all_space_append [simp]: "all_space (a @ b) \<longleftrightarrow> all_space a \<and> all_space b"
  by (simp add: all_space_def)

lemma all_space_nonspace: "all_space s \<longleftrightarrow> nonspace s = []"
  by (induction s) (auto simp: all_space_def nonspace_def)

lemma nonspace_Nil [simp]: "nonspace [] = []"
  by (simp add: nonspace_def)

lemma nonspace_append [simp]: "nonspace (a @ b) = nonspace a @ nonspace b"
  by (simp add: nonspace_def)

lemma dropWhile_all_space: "all_space w \<Longrightarrow> dropWhile is_space (w @ t) = dropWhile is_space t"
  by (induction w) (auto simp: all_space_def)

lemma takeWhile_all_space [simp]: "all_space (takeWhile is_space s)"
  by (induction s) (auto simp: all_space_def)

lemma dropWhile_strip_decomp:
  "dropWhile is_space s = strip s @ rev (takeWhile is_space (rev (dropWhile is_space s)))"
proof -
  let ?t = "dropWhile is_space s"
  have "strip s @ rev (takeWhile is_space (rev ?t))
      = rev (takeWhile is_space (rev ?t) @ dropWhile is_space (rev ?t))"
    by (simp only: rev_append strip_def)
  also have "\<dots> = rev (rev ?t)"
    by (simp only: takeWhile_dropWhile_id)
  finally show ?thesis by simp
qed

lemma strip_decomp:
  "s = takeWhile is_space s @ strip s @ rev (takeWhile is_space (rev (dropWhile is_space s)))"
proof -
  have "s = takeWhile is_space s @ dropWhile is_space s" by simp
  then show ?thesis using dropWhile_strip_decomp [of s] by simp
qed

lemma all_space_rev [simp]: "all_space (rev s) = all_space s"
  by (simp add: all_space_def list_all_iff)

lemma dropWhile_space_Nil: "dropWhile is_space s = [] \<longleftrightarrow> all_space s"
  by (simp add: all_space_def list_all_iff dropWhile_eq_Nil_conv)

lemma strip_eq_Nil: "strip s = [] \<longleftrightarrow> all_space s"
proof
  assume "strip s = []"
  then have "dropWhile is_space s = rev (takeWhile is_space (rev (dropWhile is_space s)))"
    using dropWhile_strip_decomp [of s] by simp
  then have "all_space (dropWhile is_space s)"
    using takeWhile_all_space [of "rev (dropWhile is_space s)"] all_space_rev by metis
  moreover have "dropWhile is_space s \<noteq> [] \<Longrightarrow> \<not> is_space (hd (dropWhile is_space s))"
    by (rule hd_dropWhile)
  ultimately have "dropWhile is_space s = []"
    by (cases "dropWhile is_space s") (auto simp: all_space_def)
  then show "all_space s" by (simp only: dropWhile_space_Nil)
next
  assume "all_space s"
  then have "dropWhile is_space s = []" by (simp only: dropWhile_space_Nil)
  then show "strip s = []" by (simp only: strip_def rev.simps dropWhile.simps)
qed

lemma strip_hd: "strip s \<noteq> [] \<Longrightarrow> \<not> is_space (hd (strip s))"
proof -
  assume ne: "strip s \<noteq> []"
  obtain w' where w: "dropWhile is_space s = strip s @ w'"
    using dropWhile_strip_decomp by blast
  with ne have "dropWhile is_space s \<noteq> []" by auto
  then have "\<not> is_space (hd (dropWhile is_space s))" by (rule hd_dropWhile)
  with w ne show ?thesis by simp
qed

lemma strip_last: "strip s \<noteq> [] \<Longrightarrow> \<not> is_space (last (strip s))"
proof -
  assume ne: "strip s \<noteq> []"
  let ?r = "dropWhile is_space (rev (dropWhile is_space s))"
  from ne have r: "?r \<noteq> []" by (simp add: strip_def)
  then have "\<not> is_space (hd ?r)" by (rule hd_dropWhile)
  moreover have "last (strip s) = hd ?r"
    using r by (simp add: strip_def last_rev)
  ultimately show ?thesis by simp
qed

lemma strip_trimmed:
  assumes "s \<noteq> []" "\<not> is_space (hd s)" "\<not> is_space (last s)"
  shows "strip s = s"
proof -
  from assms have 1: "dropWhile is_space s = s" by (cases s) auto
  from assms have "rev s \<noteq> []" "\<not> is_space (hd (rev s))" by (simp_all add: hd_rev)
  then have "dropWhile is_space (rev s) = rev s" by (cases "rev s") auto
  with 1 show ?thesis by (simp add: strip_def)
qed

lemma strip_idem [simp]: "strip (strip s) = strip s"
proof (cases "strip s = []")
  case True
  have "strip [] = []" by (simp add: strip_def)
  with True show ?thesis by simp
next
  case False
  then show ?thesis by (intro strip_trimmed strip_hd strip_last)
qed

subsection \<open>join\<close>

lemma join_Cons: "ys \<noteq> [] \<Longrightarrow> join sep (x # ys) = x @ sep @ join sep ys"
  by (cases ys) simp_all

lemma join_append:
  "xs \<noteq> [] \<Longrightarrow> ys \<noteq> [] \<Longrightarrow> join sep (xs @ ys) = join sep xs @ sep @ join sep ys"
proof (induction xs)
  case Nil
  then show ?case by simp
next
  case (Cons x xs)
  show ?case
  proof (cases "xs = []")
    case True
    with Cons.prems show ?thesis by (simp add: join_Cons)
  next
    case False
    with Cons show ?thesis by (simp add: join_Cons)
  qed
qed

lemma nonspace_join_nl: "nonspace (join nl ls) = nonspace (concat ls)"
proof (induction ls)
  case Nil
  then show ?case by simp
next
  case (Cons l ls)
  have "nonspace nl = []" by (simp add: nonspace_def nl_def is_space_def)
  with Cons show ?case by (cases "ls = []") (simp_all add: join_Cons)
qed

subsection \<open>rejoins\<close>

lemma rejoins_space_prefix: "all_space w \<Longrightarrow> rejoins (w @ t) cs = rejoins t cs"
  by (cases cs) (simp_all add: dropWhile_all_space)

lemma startswith_length: "startswith u c \<Longrightarrow> length c \<le> length u"
proof -
  assume "startswith u c"
  then have "take (length c) u = c" by (simp only: startswith_def)
  then have "length (take (length c) u) = length c" by (rule arg_cong)
  then show ?thesis by simp
qed

lemma startswith_append: "startswith u c \<Longrightarrow> startswith (u @ v) c"
proof -
  assume sw: "startswith u c"
  then have "length c \<le> length u" by (rule startswith_length)
  then have "take (length c) (u @ v) = take (length c) u" by simp
  with sw show ?thesis by (simp only: startswith_def)
qed

lemma rejoins_append:
  "[] \<notin> set cs \<Longrightarrow> rejoins t cs \<Longrightarrow> rejoins u ds \<Longrightarrow> rejoins (t @ u) (cs @ ds)"
proof (induction cs arbitrary: t)
  case Nil
  then show ?case by (simp add: rejoins_space_prefix)
next
  case (Cons c cs)
  let ?v = "dropWhile is_space t"
  from Cons.prems have c: "c \<noteq> []" and sw: "startswith ?v c"
    and rest: "rejoins (drop (length c) ?v) cs"
    by (auto simp: Let_def)
  from c sw have "?v \<noteq> []" unfolding startswith_def by (metis take_Nil)
  then obtain x where "x \<in> set t" "\<not> is_space x"
    by (auto simp: dropWhile_eq_Nil_conv)
  then have dw: "dropWhile is_space (t @ u) = ?v @ u"
    by (rule dropWhile_append1)
  have len: "length c \<le> length ?v" using sw by (rule startswith_length)
  then have dr: "drop (length c) (?v @ u) = drop (length c) ?v @ u" by simp
  have "[] \<notin> set cs" using Cons.prems(1) by simp
  then have "rejoins (drop (length c) ?v @ u) (cs @ ds)"
    using rest Cons.prems(3) by (rule Cons.IH)
  moreover have "startswith (?v @ u) c" using sw by (rule startswith_append)
  moreover have "rejoins (t @ u) ((c # cs) @ ds) =
      (startswith (?v @ u) c \<and> rejoins (drop (length c) (?v @ u)) (cs @ ds))"
    by (simp only: append_Cons rejoins.simps Let_def dw)
  ultimately show ?case by (simp only: dr)
qed

lemma rejoins_strip: "rejoins x (filter (\<lambda>ch. ch \<noteq> []) [strip x])"
proof (cases "strip x = []")
  case True
  then have "all_space x" by (simp only: strip_eq_Nil)
  moreover have "filter (\<lambda>ch. ch \<noteq> []) [strip x] = []" by (simp only: True) simp
  ultimately show ?thesis by (simp only: rejoins.simps)
next
  case False
  obtain w where d: "dropWhile is_space x = strip x @ w" and w: "all_space w"
    using dropWhile_strip_decomp [of x] takeWhile_all_space all_space_rev by metis
  have "rejoins x [strip x] =
      (startswith (strip x @ w) (strip x) \<and> rejoins (drop (length (strip x)) (strip x @ w)) [])"
    by (simp only: rejoins.simps Let_def d)
  then have "rejoins x [strip x]"
    using w by (simp add: startswith_def)
  then show ?thesis using False by simp
qed

lemma rejoins_nonspace: "rejoins t cs \<Longrightarrow> nonspace t = nonspace (concat cs)"
proof (induction cs arbitrary: t)
  case Nil
  then have "all_space t" by simp
  then have "nonspace t = []" by (simp only: all_space_nonspace)
  then show ?case by simp
next
  case (Cons c cs)
  let ?v = "dropWhile is_space t"
  from Cons.prems have sw: "startswith ?v c" and rest: "rejoins (drop (length c) ?v) cs"
    by (auto simp: Let_def)
  have "nonspace (takeWhile is_space t @ ?v) = nonspace (takeWhile is_space t) @ nonspace ?v"
    by (rule nonspace_append)
  then have 1: "nonspace t = nonspace (takeWhile is_space t) @ nonspace ?v"
    by (simp only: takeWhile_dropWhile_id)
  have 2: "nonspace (takeWhile is_space t) = []"
    using takeWhile_all_space [of t] by (simp only: all_space_nonspace)
  have "take (length c) ?v @ drop (length c) ?v = ?v"
    by (rule append_take_drop_id)
  then have "c @ drop (length c) ?v = ?v"
    using sw by (simp only: startswith_def)
  then have "nonspace ?v = nonspace (c @ drop (length c) ?v)"
    by (rule arg_cong [OF sym])
  then have 3: "nonspace ?v = nonspace c @ nonspace (drop (length c) ?v)"
    by (simp only: nonspace_append)
  have "nonspace (drop (length c) ?v) = nonspace (concat cs)"
    using rest by (rule Cons.IH)
  then have "nonspace t = nonspace c @ nonspace (concat cs)"
    by (simp only: 1 2 3 append_Nil)
  then show ?case by simp
qed

subsection \<open>The loop of the chunker\<close>

lemma split_to_chunks_flush:
  "split_to_chunks content =
     filter (\<lambda>ch. ch \<noteq> [])
       (flush (fst (split_loop (splitlines content) [] []))
              (snd (split_loop (splitlines content) [] [])))"
  by (simp add: split_to_chunks_def flush_def section_text_def split_beta Let_def)

lemma split_loop_groups:
  "\<exists>gs. concat gs = buf @ ls \<and> [] \<notin> set gs \<and>
        (\<forall>g\<in>set (tl gs). is_heading (hd g)) \<and>
        flush (fst (split_loop ls chunks buf)) (snd (split_loop ls chunks buf))
          = chunks @ map section_text gs"
proof (induction ls arbitrary: chunks buf)
  case Nil
  show ?case
  proof (cases "buf = []")
    case True
    then show ?thesis by (intro exI [of _ "[]"]) (simp add: flush_def)
  next
    case False
    then show ?thesis by (intro exI [of _ "[buf]"]) (simp add: flush_def)
  qed
next
  case (Cons l ls)
  show ?case
  proof (cases "startswith l heading_prefix \<and> buf \<noteq> []")
    case True
    obtain gs where gs: "concat gs = [l] @ ls" "[] \<notin> set gs"
        "\<forall>g\<in>set (tl gs). is_heading (hd g)"
        "flush (fst (split_loop ls (chunks @ [strip (join nl buf)]) [l]))
               (snd (split_loop ls (chunks @ [strip (join nl buf)]) [l]))
          = (chunks @ [strip (join nl buf)]) @ map section_text gs"
      using Cons.IH [where chunks = "chunks @ [strip (join nl buf)]" and buf = "[l]"] by blast
    from gs(1,2) obtain g gs' where g: "gs = g # gs'" "g \<noteq> []"
      by (cases gs) auto
    with gs(1) have "hd g = l" by (cases g) auto
    with True have hg: "is_heading (hd g)" by (simp add: is_heading_def)
    from True have "[] \<noteq> buf" by auto
    then show ?thesis
      using True gs g hg
      by (intro exI [of _ "buf # gs"]) (simp add: section_text_def)
  next
    case False
    obtain gs where gs: "concat gs = (buf @ [l]) @ ls" "[] \<notin> set gs"
        "\<forall>g\<in>set (tl gs). is_heading (hd g)"
        "flush (fst (split_loop ls chunks (buf @ [l]))) (snd (split_loop ls chunks (buf @ [l])))
          = chunks @ map section_text gs"
      using Cons.IH [where chunks = chunks and buf = "buf @ [l]"] by blast
    show ?thesis
      using False gs by (intro exI [of _ gs]) auto
  qed
qed

lemma split_to_chunks_groups:
  "\<exists>gs. concat gs = splitlines content \<and> [] \<notin> set gs \<and>
        (\<forall>g\<in>set (tl gs). is_heading (hd g)) \<and>
        split_to_chunks content = filter (\<lambda>ch. ch \<noteq> []) (map section_text gs)"
proof -
  obtain gs where "concat gs = splitlines content" "[] \<notin> set gs"
      "\<forall>g\<in>set (tl gs). is_heading (hd g)"
      "flush (fst (split_loop (splitlines content) [] []))
             (snd (split_loop (splitlines content) [] [])) = map section_text gs"
    using split_loop_groups [of "[]" "splitlines content" "[]"] by auto
  then show ?thesis
    by (intro exI [of _ gs]) (simp add: split_to_chunks_flush)
qed

lemma heading_prefix_eq: "heading_prefix = [35, 35, 32]"
  by (simp add: heading_prefix_def ustr_def)

lemma startswith_heading_iff: "startswith t heading_prefix \<longleftrightarrow> (\<exists>x. t = 35 # 35 # 32 # x)"
proof
  assume "startswith t heading_prefix"
  then have "take (length [35, 35, 32 :: nat]) t = [35, 35, 32]"
    by (simp only: startswith_def heading_prefix_eq)
  moreover have "take (length [35, 35, 32 :: nat]) t @ drop (length [35, 35, 32 :: nat]) t = t"
    by (rule append_take_drop_id)
  ultimately have "[35, 35, 32] @ drop (length [35, 35, 32 :: nat]) t = t" by simp
  then have "t = 35 # 35 # 32 # drop (length [35, 35, 32 :: nat]) t" by simp
  then show "\<exists>x. t = 35 # 35 # 32 # x" by (rule exI)
next
  assume "\<exists>x. t = 35 # 35 # 32 # x"
  then show "startswith t heading_prefix" by (auto simp: startswith_def heading_prefix_eq)
qed

lemma not_space_hash: "\<not> is_space 35"
  by (simp add: is_space_def)

lemma space_32: "is_space 32"
  by (simp add: is_space_def)

lemma strip_heading:
  assumes "startswith t heading_prefix"
  shows "heading_chunk (strip t) \<and> strip t \<noteq> []"
proof -
  from assms obtain x where t: "t = 35 # 35 # 32 # x"
    by (auto simp: startswith_heading_iff)
  have d: "dropWhile is_space t = t" by (simp add: t not_space_hash)
  have r: "rev t = rev x @ [32, 35, 35]" by (simp add: t)
  show ?thesis
  proof (cases "all_space (rev x)")
    case True
    then have "dropWhile is_space (rev t) = dropWhile is_space [32, 35, 35]"
      by (simp only: r dropWhile_all_space)
    then have "dropWhile is_space (rev t) = [35, 35]"
      by (simp add: not_space_hash space_32)
    then have "strip t = [35, 35]" by (simp add: strip_def d)
    then show ?thesis by (simp add: heading_chunk_def ustr_def)
  next
    case False
    then obtain y where "y \<in> set (rev x)" "\<not> is_space y"
      by (auto simp: all_space_def list_all_iff)
    then have "dropWhile is_space (rev x @ [32, 35, 35]) = dropWhile is_space (rev x) @ [32, 35, 35]"
      by (rule dropWhile_append1)
    then have "strip t = [35, 35, 32] @ rev (dropWhile is_space (rev x))"
      by (simp add: strip_def d r)
    then show ?thesis by (simp add: heading_chunk_def startswith_heading_iff)
  qed
qed

lemma join_startswith:
  "g \<noteq> [] \<Longrightarrow> startswith (hd g) p \<Longrightarrow> startswith (join sep g) p"
proof (cases g)
  case Nil
  then show "g \<noteq> [] \<Longrightarrow> startswith (join sep g) p" by simp
next
  case (Cons l g')
  assume "startswith (hd g) p"
  then have "startswith l p" by (simp add: Cons)
  then show "startswith (join sep g) p"
    by (cases "g' = []") (simp_all add: Cons join_Cons startswith_append)
qed

lemma heading_section:
  "g \<noteq> [] \<Longrightarrow> is_heading (hd g) \<Longrightarrow> heading_chunk (section_text g) \<and> section_text g \<noteq> []"
  unfolding section_text_def is_heading_def
  by (intro strip_heading join_startswith)

lemma section_text_trimmed: "strip (section_text g) = section_text g"
  by (simp add: section_text_def)

lemma heading_sections_kept:
  "[] \<notin> set gs \<Longrightarrow> \<forall>g\<in>set gs. is_heading (hd g) \<Longrightarrow>
     filter (\<lambda>ch. ch \<noteq> []) (map section_text gs) = map section_text gs \<and>
     list_all heading_chunk (map section_text gs)"
  by (induction gs) (auto simp: heading_section)

lemma list_all_tl: "list_all P xs \<Longrightarrow> list_all P (tl xs)"
  by (cases xs) simp_all

text \<open>
  Claim C10, as amended. For every input, every chunk that \<open>split_to_chunks\<close> returns
  is non-empty and equal to its own trimmed form, and every chunk but the first
  opens with a level-2 heading: it starts with \<open>## \<close> or is exactly \<open>##\<close>.
\<close>

theorem split_to_chunks_invariant:
  "list_all (\<lambda>ch. ch \<noteq> [] \<and> strip ch = ch) (split_to_chunks content) \<and>
   list_all heading_chunk (tl (split_to_chunks content))"
proof -
  obtain gs where gs: "concat gs = splitlines content" "[] \<notin> set gs"
      "\<forall>g\<in>set (tl gs). is_heading (hd g)"
      "split_to_chunks content = filter (\<lambda>ch. ch \<noteq> []) (map section_text gs)"
    using split_to_chunks_groups by blast
  have 1: "list_all (\<lambda>ch. ch \<noteq> [] \<and> strip ch = ch) (split_to_chunks content)"
    by (auto simp: gs(4) list_all_iff section_text_trimmed)
  have 2: "list_all heading_chunk (tl (split_to_chunks content))"
  proof (cases gs)
    case Nil
    then show ?thesis by (simp add: gs(4))
  next
    case (Cons g gs')
    with gs(2,3) have "[] \<notin> set gs'" "\<forall>g\<in>set gs'. is_heading (hd g)" by auto
    then have k: "filter (\<lambda>ch. ch \<noteq> []) (map section_text gs') = map section_text gs'"
      "list_all heading_chunk (map section_text gs')"
      using heading_sections_kept by blast+
    show ?thesis
    proof (cases "section_text g = []")
      case True
      then have "split_to_chunks content = map section_text gs'"
        by (simp add: gs(4) Cons k(1))
      with k(2) show ?thesis by (simp only: list_all_tl)
    next
      case False
      then have "split_to_chunks content = section_text g # map section_text gs'"
        by (simp add: gs(4) Cons k(1))
      with k(2) show ?thesis by simp
    qed
  qed
  from 1 2 show ?thesis by simp
qed

lemma splitlines_Cons_eval:
  "splitlines (c # cs) = takeWhile (\<lambda>c. \<not> is_linebreak c) (c # cs)
             # splitlines (drop_eol (dropWhile (\<lambda>c. \<not> is_linebreak c) (c # cs)))"
  by (rule splitlines_Cons) simp

lemmas chunk_eval = split_to_chunks_def splitlines_Cons_eval ustr_def is_linebreak_def
  drop_eol_def heading_prefix_def startswith_def strip_def is_space_def nl_def
  all_space_def nl_only_def is_heading_def heading_chunk_def nonspace_def section_text_def

lemma nonspace_drop_eol:
  "r = [] \<or> is_linebreak (hd r) \<Longrightarrow> nonspace (drop_eol r) = nonspace r"
proof (cases r)
  case Nil
  then show ?thesis by (simp add: drop_eol_def)
next
  case (Cons c cs)
  assume "r = [] \<or> is_linebreak (hd r)"
  with Cons have "is_space c" by (simp add: linebreak_is_space)
  moreover have "is_space 10" by (simp add: is_space_def)
  ultimately show ?thesis
    by (auto simp: Cons drop_eol_def nonspace_def split: list.splits)
qed

lemma dropWhile_linebreak_hd:
  "dropWhile (\<lambda>c. \<not> is_linebreak c) s = [] \<or> is_linebreak (hd (dropWhile (\<lambda>c. \<not> is_linebreak c) s))"
  using hd_dropWhile [of "\<lambda>c. \<not> is_linebreak c" s] by blast

lemma nonspace_splitlines: "nonspace (concat (splitlines s)) = nonspace s"
proof (induction s rule: splitlines.induct)
  case (1 s)
  show ?case
  proof (cases "s = []")
    case True
    then show ?thesis by simp
  next
    case False
    let ?l = "takeWhile (\<lambda>c. \<not> is_linebreak c) s"
    let ?r = "dropWhile (\<lambda>c. \<not> is_linebreak c) s"
    have "nonspace (concat (splitlines s)) = nonspace ?l @ nonspace (concat (splitlines (drop_eol ?r)))"
      using False by (simp add: splitlines_Cons)
    also have "\<dots> = nonspace ?l @ nonspace (drop_eol ?r)"
      using 1 [OF False] by simp
    also have "\<dots> = nonspace ?l @ nonspace ?r"
      using nonspace_drop_eol [OF dropWhile_linebreak_hd] by simp
    also have "\<dots> = nonspace (?l @ ?r)" by (simp only: nonspace_append)
    also have "?l @ ?r = s" by (rule takeWhile_dropWhile_id)
    finally show ?thesis .
  qed
qed

lemma nonspace_joined_lines: "nonspace (join nl (splitlines s)) = nonspace s"
  by (simp add: nonspace_join_nl nonspace_splitlines)

lemma all_space_joined_lines: "all_space (join nl (splitlines s)) \<longleftrightarrow> all_space s"
  by (simp add: all_space_nonspace nonspace_joined_lines)

lemma nl_only_drop: "nl_only s \<Longrightarrow> nl_only (dropWhile P s)"
  unfolding nl_only_def list_all_iff using set_dropWhileD by fast

lemma nl_only_tl: "nl_only (c # cs) \<Longrightarrow> nl_only cs"
  by (simp add: nl_only_def)

lemma splitlines_join:
  "nl_only s \<Longrightarrow> join nl (splitlines s) = s \<or> join nl (splitlines s) @ nl = s"
proof (induction s rule: splitlines.induct)
  case (1 s)
  show ?case
  proof (cases "s = []")
    case True
    then show ?thesis by simp
  next
    case False
    let ?l = "takeWhile (\<lambda>c. \<not> is_linebreak c) s"
    let ?r = "dropWhile (\<lambda>c. \<not> is_linebreak c) s"
    have s: "s = ?l @ ?r" by simp
    have sl: "splitlines s = ?l # splitlines (drop_eol ?r)"
      using False by (rule splitlines_Cons)
    show ?thesis
    proof (cases ?r)
      case Nil
      then have "drop_eol ?r = []" by (simp only: drop_eol_def list.case)
      then have "splitlines s = [?l]" using sl by simp
      moreover have "?l = s" using s Nil by (metis append_Nil2)
      ultimately show ?thesis by simp
    next
      case (Cons c cs)
      have "is_linebreak (hd ?r)" using dropWhile_linebreak_hd [of s] Cons by simp
      then have lb: "is_linebreak c" by (simp add: Cons)
      have no: "nl_only ?r" using "1.prems" by (rule nl_only_drop)
      then have c: "c = 10" using lb by (simp add: Cons nl_only_def)
      have de: "drop_eol ?r = cs" by (simp add: Cons drop_eol_def c)
      have "nl_only cs" using no Cons nl_only_tl by metis
      then have IH: "join nl (splitlines cs) = cs \<or> join nl (splitlines cs) @ nl = cs"
        using "1.IH" [OF False] by (simp add: de)
      have sl': "splitlines s = ?l # splitlines cs" using sl by (simp add: de)
      have s': "s = ?l @ nl @ cs" using s by (simp add: Cons c nl_def)
      show ?thesis
      proof (cases "cs = []")
        case True
        then have "join nl (splitlines s) @ nl = ?l @ nl" by (simp add: sl')
        also have "\<dots> = s" using s' True by simp
        finally show ?thesis by simp
      next
        case False
        then have j: "join nl (splitlines s) = ?l @ nl @ join nl (splitlines cs)"
          by (simp add: sl' join_Cons)
        from IH show ?thesis
        proof
          assume "join nl (splitlines cs) = cs"
          then have "join nl (splitlines s) = ?l @ nl @ cs" by (simp add: j)
          then show ?thesis using s' by simp
        next
          assume "join nl (splitlines cs) @ nl = cs"
          then have "join nl (splitlines s) @ nl = ?l @ nl @ cs" by (simp add: j)
          then show ?thesis using s' by simp
        qed
      qed
    qed
  qed
qed

lemma strip_append_space: "all_space w \<Longrightarrow> strip (t @ w) = strip t"
proof (cases "all_space t")
  case True
  assume "all_space w"
  with True have "all_space (t @ w)" by simp
  then have "strip (t @ w) = []" by (simp only: strip_eq_Nil)
  moreover from True have "strip t = []" by (simp only: strip_eq_Nil)
  ultimately show ?thesis by simp
next
  case False
  assume w: "all_space w"
  from False obtain y where "y \<in> set t" "\<not> is_space y"
    by (auto simp: all_space_def list_all_iff)
  then have "dropWhile is_space (t @ w) = dropWhile is_space t @ w"
    by (rule dropWhile_append1)
  then have "rev (dropWhile is_space (t @ w)) = rev w @ rev (dropWhile is_space t)"
    by simp
  moreover have "all_space (rev w)" using w by simp
  ultimately have "dropWhile is_space (rev (dropWhile is_space (t @ w)))
      = dropWhile is_space (rev (dropWhile is_space t))"
    by (simp only: dropWhile_all_space)
  then show ?thesis by (simp only: strip_def)
qed

lemma strip_joined_lines: "nl_only s \<Longrightarrow> strip (join nl (splitlines s)) = strip s"
proof -
  assume "nl_only s"
  then have "join nl (splitlines s) = s \<or> join nl (splitlines s) @ nl = s"
    by (rule splitlines_join)
  moreover have "all_space nl" by (simp add: nl_def all_space_def is_space_def)
  ultimately show ?thesis using strip_append_space [of nl "join nl (splitlines s)"] by auto
qed

lemma rejoins_sections:
  "[] \<notin> set gs \<Longrightarrow>
     rejoins (join nl (concat gs)) (filter (\<lambda>ch. ch \<noteq> []) (map section_text gs))"
proof (induction gs)
  case Nil
  then show ?case by simp
next
  case (Cons g gs)
  then have g: "g \<noteq> []" and gs: "[] \<notin> set gs" by auto
  have head: "rejoins (join nl g) (filter (\<lambda>ch. ch \<noteq> []) [section_text g])"
    unfolding section_text_def by (rule rejoins_strip)
  have ne: "[] \<notin> set (filter (\<lambda>ch. ch \<noteq> []) [section_text g])" by simp
  have split: "filter (\<lambda>ch. ch \<noteq> []) (map section_text (g # gs))
      = filter (\<lambda>ch. ch \<noteq> []) [section_text g] @ filter (\<lambda>ch. ch \<noteq> []) (map section_text gs)"
    by simp
  show ?case
  proof (cases "gs = []")
    case True
    then show ?thesis using head by simp
  next
    case False
    with gs have c: "concat gs \<noteq> []" by (cases gs) auto
    have "all_space nl" by (simp add: nl_def all_space_def is_space_def)
    then have "rejoins (nl @ join nl (concat gs)) (filter (\<lambda>ch. ch \<noteq> []) (map section_text gs))"
      using Cons.IH [OF gs] by (simp only: rejoins_space_prefix)
    with ne head have "rejoins (join nl g @ nl @ join nl (concat gs))
        (filter (\<lambda>ch. ch \<noteq> []) [section_text g] @ filter (\<lambda>ch. ch \<noteq> []) (map section_text gs))"
      by (rule rejoins_append)
    moreover have "join nl (concat (g # gs)) = join nl g @ nl @ join nl (concat gs)"
      using g c by (simp add: join_append)
    ultimately show ?thesis by (simp only: split)
  qed
qed

lemma split_to_chunks_nonempty: "[] \<notin> set (split_to_chunks body)"
  using split_to_chunks_groups [of body] by auto

lemma rejoins_lines: "rejoins (join nl (splitlines body)) (split_to_chunks body)"
proof -
  obtain gs where gs: "concat gs = splitlines body" "[] \<notin> set gs"
      "split_to_chunks body = filter (\<lambda>ch. ch \<noteq> []) (map section_text gs)"
    using split_to_chunks_groups by blast
  from rejoins_sections [OF gs(2)] show ?thesis by (simp only: gs(1) gs(3))
qed

lemma rejoins_body: "nl_only body \<Longrightarrow> rejoins body (split_to_chunks body)"
proof -
  assume "nl_only body"
  then have "join nl (splitlines body) = body \<or> join nl (splitlines body) @ nl = body"
    by (rule splitlines_join)
  then show ?thesis
  proof
    assume "join nl (splitlines body) = body"
    with rejoins_lines [of body] show ?thesis by simp
  next
    assume e: "join nl (splitlines body) @ nl = body"
    have "rejoins nl []" by (simp add: nl_def all_space_def is_space_def)
    with split_to_chunks_nonempty rejoins_lines
    have "rejoins (join nl (splitlines body) @ nl) (split_to_chunks body @ [])"
      by (rule rejoins_append)
    then show ?thesis by (simp add: e)
  qed
qed

text \<open>
  Claim C4, as amended. For every body: the chunks in order, with whitespace alone
  around and between them, make up the body's lines joined by LF; when LF is the
  body's only line boundary they make up the body itself; the characters of the body
  that are not whitespace are those of the chunks, in order; and each chunk is the
  trimmed join of one of consecutive non-empty groups of the body's lines, the groups
  whose text is only whitespace being dropped.
\<close>

theorem split_to_chunks_rejoins:
  "rejoins (join nl (splitlines body)) (split_to_chunks body) \<and>
   (nl_only body \<longrightarrow> rejoins body (split_to_chunks body)) \<and>
   nonspace (concat (split_to_chunks body)) = nonspace body \<and>
   (\<exists>gs. concat gs = splitlines body \<and> [] \<notin> set gs \<and>
      split_to_chunks body = filter (\<lambda>ch. ch \<noteq> []) (map section_text gs))"
proof -
  have "nonspace (concat (split_to_chunks body)) = nonspace (join nl (splitlines body))"
    using rejoins_nonspace [OF rejoins_lines] by simp
  then have "nonspace (concat (split_to_chunks body)) = nonspace body"
    by (simp only: nonspace_joined_lines)
  moreover have "\<exists>gs. concat gs = splitlines body \<and> [] \<notin> set gs \<and>
      split_to_chunks body = filter (\<lambda>ch. ch \<noteq> []) (map section_text gs)"
    using split_to_chunks_groups [of body] by blast
  ultimately show ?thesis using rejoins_lines rejoins_body by blast
qed

lemma split_loop_no_heading:
  "list_all (\<lambda>l. \<not> is_heading l) ls \<Longrightarrow> split_loop ls chunks buf = (chunks, buf @ ls)"
  by (induction ls arbitrary: buf) (simp_all add: is_heading_def)

lemma split_no_heading:
  assumes "list_all (\<lambda>l. \<not> is_heading l) (splitlines body)"
  shows "split_to_chunks body =
           (if all_space body then [] else [strip (join nl (splitlines body))])"
proof (cases "body = []")
  case True
  then show ?thesis by (simp add: split_to_chunks_def)
next
  case False
  then have ne: "splitlines body \<noteq> []" by simp
  have "split_to_chunks body = filter (\<lambda>ch. ch \<noteq> []) [strip (join nl (splitlines body))]"
    using ne by (simp add: split_to_chunks_def split_loop_no_heading [OF assms])
  moreover have "strip (join nl (splitlines body)) = [] \<longleftrightarrow> all_space body"
    by (simp only: strip_eq_Nil all_space_joined_lines)
  ultimately show ?thesis by simp
qed

lemma first_line_heading:
  assumes "startswith body heading_prefix"
  shows "\<exists>l rest. splitlines body = l # rest \<and> is_heading l"
proof -
  from assms obtain x where b: "body = 35 # 35 # 32 # x"
    by (auto simp: startswith_heading_iff)
  have "\<not> is_linebreak 35" "\<not> is_linebreak 32" by (simp_all add: is_linebreak_def)
  then have "takeWhile (\<lambda>c. \<not> is_linebreak c) body
      = 35 # 35 # 32 # takeWhile (\<lambda>c. \<not> is_linebreak c) x"
    by (simp add: b)
  then have "is_heading (takeWhile (\<lambda>c. \<not> is_linebreak c) body)"
    by (simp only: is_heading_def startswith_heading_iff) blast
  moreover have "body \<noteq> []" by (simp add: b)
  ultimately show ?thesis using splitlines_Cons by blast
qed

lemma split_heading_first:
  assumes "startswith body heading_prefix"
  shows "split_to_chunks body \<noteq> [] \<and> heading_chunk (hd (split_to_chunks body))"
proof -
  obtain l rest where l: "splitlines body = l # rest" "is_heading l"
    using first_line_heading [OF assms] by blast
  obtain gs where gs: "concat gs = splitlines body" "[] \<notin> set gs"
      "split_to_chunks body = filter (\<lambda>ch. ch \<noteq> []) (map section_text gs)"
    using split_to_chunks_groups by blast
  from gs(1,2) l(1) obtain g gs' where g: "gs = g # gs'" "g \<noteq> []"
    by (cases gs) auto
  with gs(1) l(1) have "hd g = l" by (cases g) auto
  with l(2) g(2) have "heading_chunk (section_text g) \<and> section_text g \<noteq> []"
    by (simp add: heading_section)
  then show ?thesis by (simp add: gs(3) g(1))
qed

text \<open>
  Claim C5, as amended. For every body none of whose lines is a level-2 heading,
  \<open>split_to_chunks\<close> returns no chunk when the body is empty or only whitespace, and
  otherwise exactly one chunk: the body's lines joined by LF, trimmed, which is the
  whole body trimmed when LF is the body's only line boundary. A body that begins
  with a level-2 heading yields at least one chunk, and its first chunk opens with
  that heading: no preamble chunk precedes it.
\<close>

theorem split_without_headings:
  "(list_all (\<lambda>l. \<not> is_heading l) (splitlines body) \<longrightarrow>
      split_to_chunks body = (if all_space body then [] else [strip (join nl (splitlines body))])) \<and>
   (list_all (\<lambda>l. \<not> is_heading l) (splitlines body) \<and> nl_only body \<longrightarrow>
      split_to_chunks body = (if all_space body then [] else [strip body])) \<and>
   (startswith body heading_prefix \<longrightarrow>
      split_to_chunks body \<noteq> [] \<and> heading_chunk (hd (split_to_chunks body)))"
  using split_no_heading [of body] strip_joined_lines [of body] split_heading_first [of body]
  by simp

lemma split_intro_setup_usage:
  "split_to_chunks intro_setup_usage
     = [ustr ''Intro'', ustr ''## Setup\<newline>Step 1'', ustr ''## Usage\<newline>Step 2'']"
  by (simp add: intro_setup_usage_def chunk_eval)

lemma split_cr: "split_to_chunks [97, 13, 98] = [[97, 10, 98]]"
  by (simp add: chunk_eval)

lemma split_empty_heading: "split_to_chunks (ustr ''a\<newline>## '') = [ustr ''a'', ustr ''##'']"
  by (simp add: chunk_eval)

theorem split_to_chunks_rejoins_witness:
  "nl_only intro_setup_usage \<and> rejoins intro_setup_usage (split_to_chunks intro_setup_usage)"
  using split_to_chunks_rejoins [of intro_setup_usage]
  by (simp add: intro_setup_usage_def chunk_eval)

text \<open>
  Claim C4 as stated fails for a body with another line boundary than LF: for the
  body \<open>a\rb\<close> the only chunk is \<open>a\nb\<close>, which differs from the body inside the
  chunk, not in trimmed whitespace.
\<close>

theorem split_cr_not_rejoined:
  "\<not> rejoins [97, 13, 98] (split_to_chunks [97, 13, 98])"
  by (simp add: split_cr chunk_eval)

theorem split_without_headings_witness:
  "split_to_chunks (ustr ''Intro\<newline>Step 1\<newline>'') = [ustr ''Intro\<newline>Step 1''] \<and>
   split_to_chunks (ustr '' \<newline> '') = [] \<and>
   split_to_chunks (ustr ''## Setup\<newline>Step 1'') \<noteq> [] \<and>
   heading_chunk (hd (split_to_chunks (ustr ''## Setup\<newline>Step 1'')))"
  using split_without_headings [of "ustr ''Intro\<newline>Step 1\<newline>''"]
    split_without_headings [of "ustr '' \<newline> ''"]
    split_without_headings [of "ustr ''## Setup\<newline>Step 1''"]
  by (simp add: chunk_eval)

text \<open>
  Claim C5 as stated fails for a body with another line boundary than LF: the body
  \<open>a\rb\<close> has no heading and is not whitespace, and its one chunk \<open>a\nb\<close> is not the
  body trimmed.
\<close>

theorem split_cr_not_whole_body:
  "list_all (\<lambda>l. \<not> is_heading l) (splitlines [97, 13, 98]) \<and> \<not> all_space [97, 13, 98] \<and>
   split_to_chunks [97, 13, 98] \<noteq> [strip [97, 13, 98]]"
  by (simp add: split_cr chunk_eval)

theorem split_to_chunks_invariant_witness:
  "list_all (\<lambda>ch. ch \<noteq> [] \<and> strip ch = ch) (split_to_chunks intro_setup_usage) \<and>
   tl (split_to_chunks intro_setup_usage) = [ustr ''## Setup\<newline>Step 1'', ustr ''## Usage\<newline>Step 2''] \<and>
   list_all heading_chunk (tl (split_to_chunks intro_setup_usage))"
  using split_to_chunks_invariant [of intro_setup_usage]
  by (simp add: split_intro_setup_usage)

text \<open>
  Claim C10 as stated fails: for the body \<open>a\n## \<close> the second chunk is \<open>##\<close>, the
  trailing space of the heading prefix trimmed away, so it does not begin with \<open>## \<close>.
\<close>

theorem split_empty_heading_chunk:
  "split_to_chunks (ustr ''a\<newline>## '') = [ustr ''a'', ustr ''##''] \<and>
   \<not> startswith (split_to_chunks (ustr ''a\<newline>## '') ! 1) heading_prefix"
  by (simp add: split_empty_heading) (simp add: chunk_eval)

end
